theory Spec2Isabelle
  imports Complex_Main "HOL-Library.Sublist"
begin

section \<open>Volume labelling (meshpyvista7.py, label_connected_components)\<close>

text \<open>
  A volume is a stack of 2D pages of integer intensities, indexed slice, row, column.
  A labelled volume has the same layout and holds int32 labels.
\<close>

type_synonym slice = "int list list"
type_synonym volume = "slice list"

text \<open>
  \<^verbatim>\<open>volume[i].astype(np.uint8)\<close> on a page of integer dtype keeps the low eight bits of
  every value.
\<close>

definition astype_uint8 :: "int \<Rightarrow> int" where
  "astype_uint8 v = v mod 256"

definition slice_uint8 :: "slice \<Rightarrow> slice" where
  "slice_uint8 s = map (map astype_uint8) s"

text \<open>
  The label arrays are int32. An addition whose result leaves the int32 range wraps
  around; \<open>wrap32\<close> writes the two's complement wrap-around out on \<open>int\<close>.
\<close>

definition wrap32 :: "int \<Rightarrow> int" where
  "wrap32 x = (x + 2 ^ 31) mod 2 ^ 32 - 2 ^ 31"

text \<open>
  \<^verbatim>\<open>cv2.connectedComponents\<close> is an external primitive. It is a parameter of the model:
  a function from a uint8 page to the pair \<^verbatim>\<open>(num_labels, labels)\<close>.
\<close>

type_synonym labeler = "slice \<Rightarrow> int \<times> slice"

text \<open>\<^verbatim>\<open>labels[labels > 0] += current_label\<close>\<close>

definition offset_labels :: "int \<Rightarrow> slice \<Rightarrow> slice" where
  "offset_labels current_label labels =
     map (map (\<lambda>l. if l > 0 then wrap32 (l + current_label) else l)) labels"

text \<open>\<^verbatim>\<open>np.zeros_like(volume, dtype=np.int32)\<close>\<close>

definition zeros_like :: "volume \<Rightarrow> volume" where
  "zeros_like v = map (map (map (\<lambda>_. 0))) v"

text \<open>
  The body of the loop \<^verbatim>\<open>for i in range(volume.shape[0])\<close>, for the index \<open>i\<close>. The
  state of the loop is the pair of \<^verbatim>\<open>labeled_volume\<close> and \<^verbatim>\<open>current_label\<close>.
\<close>

definition label_slice_step :: "labeler \<Rightarrow> volume \<Rightarrow> volume \<times> int \<Rightarrow> nat \<Rightarrow> volume \<times> int" where
  "label_slice_step cc volume st i =
     (case st of (labeled_volume, current_label) \<Rightarrow>
        (case cc (slice_uint8 (volume ! i)) of (num_labels, labels) \<Rightarrow>
           (labeled_volume[i := offset_labels current_label labels],
            current_label + (num_labels - 1))))"

definition label_connected_components :: "labeler \<Rightarrow> volume \<Rightarrow> volume \<times> int" where
  "label_connected_components cc volume =
     (case foldl (label_slice_step cc volume) (zeros_like volume, 1) [0..<length volume] of
        (labeled_volume, current_label) \<Rightarrow> (labeled_volume, current_label - 1))"

text \<open>
  The same loop as a recursion over the slices that are left, from a given value of
  \<^verbatim>\<open>current_label\<close>: the labelled slices and the final \<^verbatim>\<open>current_label\<close>. The proofs
  work on this form; \<open>label_connected_components_slices\<close> below shows that it is the loop.
\<close>

fun label_slices :: "labeler \<Rightarrow> volume \<Rightarrow> int \<Rightarrow> volume \<times> int" where
  "label_slices cc [] current_label = ([], current_label)"
| "label_slices cc (s # rest) current_label =
     (let (num_labels, labels) = cc (slice_uint8 s);
          labels' = offset_labels current_label labels;
          (out, final) = label_slices cc rest (current_label + (num_labels - 1))
      in (labels' # out, final))"

subsection \<open>The documented contract of the external labeller\<close>

text \<open>
  OpenCV documents \<^verbatim>\<open>connectedComponents\<close> as returning the total number \<open>N\<close> of
  labels \<open>[0, N-1]\<close>, where 0 is the background label, and a label image of the size of
  the input. \<open>cc_contract img r\<close> says that the result \<open>r\<close> for the page \<open>img\<close> obeys this:
  the label image has the shape of the page, a pixel has label 0 exactly when it is 0,
  every label is below \<open>N\<close>, and every label from 1 to \<open>N-1\<close> occurs. Which pixels
  share a label is left open.
\<close>

definition cc_contract :: "slice \<Rightarrow> int \<times> slice \<Rightarrow> bool" where
  "cc_contract img r =
     (case r of (n, ls) \<Rightarrow>
        1 \<le> n \<and>
        list_all2 (list_all2 (\<lambda>p l. 0 \<le> l \<and> l < n \<and> (l = 0 \<longleftrightarrow> p = 0))) img ls \<and>
        list_all (\<lambda>k. k \<in> set (concat ls)) [1..n - 1])"

definition cc_ok :: "labeler \<Rightarrow> volume \<Rightarrow> bool" where
  "cc_ok cc volume = list_all (\<lambda>s. cc_contract (slice_uint8 s) (cc (slice_uint8 s))) volume"

text \<open>The positive labels of a page of labels.\<close>

definition slice_pos :: "slice \<Rightarrow> int set" where
  "slice_pos s = {l \<in> set (concat s). 0 < l}"

subsection \<open>A labeller for concrete evaluations\<close>

text \<open>
  On a page where no two foreground pixels of different rows touch (a page of one row,
  for instance), the 8-connected components are the maximal runs of nonzero pixels in
  each row. \<open>cc_runs\<close> numbers these runs in raster order.
\<close>

fun label_row :: "int list \<Rightarrow> bool \<Rightarrow> int \<Rightarrow> int list \<times> int" where
  "label_row [] prev k = ([], k)"
| "label_row (p # ps) prev k =
     (if p = 0 then (case label_row ps False k of (ls, k') \<Rightarrow> (0 # ls, k'))
      else if prev then (case label_row ps True k of (ls, k') \<Rightarrow> (k # ls, k'))
      else (case label_row ps True (k + 1) of (ls, k') \<Rightarrow> ((k + 1) # ls, k')))"

fun label_rows :: "slice \<Rightarrow> int \<Rightarrow> slice \<times> int" where
  "label_rows [] k = ([], k)"
| "label_rows (r # rs) k =
     (case label_row r False k of (ls, k') \<Rightarrow>
        (case label_rows rs k' of (lss, k'') \<Rightarrow> (ls # lss, k'')))"

definition cc_runs :: labeler where
  "cc_runs img = (case label_rows img 0 of (ls, k) \<Rightarrow> (k + 1, ls))"


section \<open>Acquisition (create_sphere_array)\<close>

text \<open>The synthetic test volume: a ball of radius \<open>size // 4\<close> centred in a cube.\<close>

definition create_sphere_array :: "nat \<Rightarrow> volume" where
  "create_sphere_array sz =
     (let center = int sz div 2; radius = int sz div 4
      in map (\<lambda>x. map (\<lambda>y. map (\<lambda>z.
           if (int x - center)\<^sup>2 + (int y - center)\<^sup>2 + (int z - center)\<^sup>2 \<le> radius\<^sup>2
           then 1 else 0) [0..<sz]) [0..<sz]) [0..<sz])"

section \<open>Strings\<close>

text \<open>Python's \<^verbatim>\<open>str\<close> of an integer, as the f-strings of the scripts format it.\<close>

definition digit_char :: "nat \<Rightarrow> char" where
  "digit_char d = ''0123456789'' ! d"

fun str_nat :: "nat \<Rightarrow> string" where
  "str_nat n = (if n < 10 then [digit_char n]
                else str_nat (n div 10) @ [digit_char (n mod 10)])"

declare str_nat.simps [simp del]

definition str_int :: "int \<Rightarrow> string" where
  "str_int i = (if i < 0 then CHR ''-'' # str_nat (nat (- i)) else str_nat (nat i))"

text \<open>
  Python's \<^verbatim>\<open>s.replace(old, new)\<close>: every occurrence of \<open>old\<close>, found from the left
  and not overlapping the one before, is replaced. For the empty \<open>old\<close> Python puts
  \<open>new\<close> before every character and at the end.
\<close>

function replace :: "string \<Rightarrow> string \<Rightarrow> string \<Rightarrow> string" where
  "replace old new [] = (if old = [] then new else [])"
| "replace old new (c # cs) =
     (if old = [] then new @ c # replace old new cs
      else if prefix old (c # cs) then new @ replace old new (drop (length old) (c # cs))
      else c # replace old new cs)"
  by pat_completeness auto
termination
  by (relation "measure (\<lambda>(old, new, s). length s)") auto

text \<open>\<^verbatim>\<open>args.output.replace(".obj", f"_{idx}.obj")\<close>\<close>

definition obj_path :: "string \<Rightarrow> nat \<Rightarrow> string" where
  "obj_path base idx = replace ''.obj'' (''_'' @ str_nat idx @ ''.obj'') base"

section \<open>The geometry kernel and the command line\<close>

text \<open>
  PyVista, Pillow and OpenCV are external collaborators. Each call into them is a
  parameter of the model that returns a mesh or raises; an exception is the value
  \<open>Inl (Raised stage)\<close>, naming the call that raised it.
\<close>

datatype stage = Reading | Extraction | Connectivity | Smoothing | Triangulation
  | Decimation | Normals

datatype error = Raised stage

text \<open>
  The mesh stages of a pipeline, over any mesh type: \<^verbatim>\<open>smooth(n_iter)\<close>,
  \<^verbatim>\<open>triangulate()\<close>, \<^verbatim>\<open>decimate(target_reduction)\<close>, \<^verbatim>\<open>compute_normals()\<close>, and the
  number of cells of a mesh (its triangle count once it is triangulated).
\<close>

record 'm refiner =
  smooth :: "nat \<Rightarrow> 'm \<Rightarrow> error + 'm"
  triangulate :: "'m \<Rightarrow> error + 'm"
  decimate :: "rat \<Rightarrow> 'm \<Rightarrow> error + 'm"
  compute_normals :: "'m \<Rightarrow> error + 'm"
  n_cells :: "'m \<Rightarrow> nat"

text \<open>
  A surface with the \<^verbatim>\<open>RegionId\<close> array that \<^verbatim>\<open>connectivity()\<close> attaches: a list of
  surface elements, each with its region identifier.
\<close>

type_synonym 'g polydata = "('g \<times> int) list"

type_synonym voxel = "(nat \<times> nat \<times> nat) \<times> int"

record ('s, 'g) kernel =
  read_multi_tiff_pillow :: "string \<Rightarrow> error + volume"
  connectedComponents :: labeler
  extract_surface :: "voxel list \<Rightarrow> error + 's"
  connectivity :: "'s \<Rightarrow> error + 'g polydata"
  stages :: "'g polydata refiner"

text \<open>
  The parsed command line: \<^verbatim>\<open>args.input\<close>, \<^verbatim>\<open>args.output\<close> and \<^verbatim>\<open>args.reduction\<close>.
  The reduction is a float; the model takes a rational.
\<close>

record args =
  input_path :: "string option"
  output_path :: "string option"
  reduction :: rat

text \<open>\<^verbatim>\<open>if args.input:\<close> is false for a missing option and for the empty string.\<close>

fun given :: "string option \<Rightarrow> bool" where
  "given None = False"
| "given (Some p) = (p \<noteq> [])"

text \<open>
  What a run leaves behind: the lines printed, the meshes added to the plotter with
  their colour, and the files written, each in the order of the calls.
\<close>

datatype colour = White | Random_colour nat

record 'm scene =
  console :: "string list"
  plotted :: "(colour \<times> 'm) list"
  saved :: "(string \<times> 'm) list"

definition empty_scene :: "'m scene" where
  "empty_scene = \<lparr>console = [], plotted = [], saved = []\<rparr>"

definition print_line :: "string \<Rightarrow> 'm scene \<Rightarrow> 'm scene" where
  "print_line l s = s\<lparr>console := console s @ [l]\<rparr>"

definition add_mesh :: "colour \<Rightarrow> 'm \<Rightarrow> 'm scene \<Rightarrow> 'm scene" where
  "add_mesh c m s = s\<lparr>plotted := plotted s @ [(c, m)]\<rparr>"

definition save_mesh :: "string \<Rightarrow> 'm \<Rightarrow> 'm scene \<Rightarrow> 'm scene" where
  "save_mesh path m s = s\<lparr>saved := saved s @ [(path, m)]\<rparr>"

text \<open>
  The result of a run: \<open>Inr\<close> the scene when \<^verbatim>\<open>main\<close> returns, \<open>Inl\<close> the exception
  that ended it together with what it had done until then.
\<close>

type_synonym 'm outcome = "(error \<times> 'm scene) + 'm scene"


text \<open>Loading the volume, or generating the sphere (both scripts, the same lines).\<close>

definition acquire ::
  "(string \<Rightarrow> error + volume) \<Rightarrow> args \<Rightarrow> 'm scene \<Rightarrow> (error \<times> 'm scene) + (volume \<times> 'm scene)" where
  "acquire rd a s =
     (if given (input_path a) then
        (let s1 = print_line (''Loading multi-page TIFF from '' @ the (input_path a) @ ''...'') s
         in case rd (the (input_path a)) of
              Inl e \<Rightarrow> Inl (e, s1)
            | Inr v \<Rightarrow> Inr (v, s1))
      else Inr (create_sphere_array 50,
                print_line ''No input file provided. Generating a sphere volume.'' s))"

text \<open>
  \<^verbatim>\<open>pv.wrap(a).threshold(0.5)\<close>: the entries of the array whose value is at least the
  threshold, each with its index.
\<close>

definition voxels :: "volume \<Rightarrow> voxel list" where
  "voxels v =
     concat (map (\<lambda>(i, s).
       concat (map (\<lambda>(j, r). map (\<lambda>(k, x). ((i, j, k), x)) (enumerate 0 r)) (enumerate 0 s)))
       (enumerate 0 v))"

definition threshold_volume :: "rat \<Rightarrow> volume \<Rightarrow> voxel list" where
  "threshold_volume t v = filter (\<lambda>(_, x). t \<le> of_int x) (voxels v)"

section \<open>The multi-region pipeline (meshpyvista7.py, main)\<close>

text \<open>\<^verbatim>\<open>np.unique(components.point_data["RegionId"])\<close>: the distinct values, ascending.\<close>

definition unique_regions :: "'g polydata \<Rightarrow> int list" where
  "unique_regions components = sort (remdups (map snd components))"

text \<open>
  \<^verbatim>\<open>components.threshold([region_id - 0.1, region_id + 0.1], scalars="RegionId")\<close>
\<close>

definition threshold_between :: "rat \<Rightarrow> rat \<Rightarrow> 'g polydata \<Rightarrow> 'g polydata" where
  "threshold_between lo hi m = filter (\<lambda>e. lo \<le> of_int (snd e) \<and> of_int (snd e) \<le> hi) m"

definition region_patch :: "'g polydata \<Rightarrow> int \<Rightarrow> 'g polydata" where
  "region_patch components region_id =
     threshold_between (of_int region_id - 1 / 10) (of_int region_id + 1 / 10) components"

text \<open>
  Lines 96 to 99: smooth with five iterations, triangulate, decimate when
  \<^verbatim>\<open>args.reduction > 0\<close>, compute the normals. An exception of a stage leaves the
  function at once.
\<close>

definition refine_region :: "'m refiner \<Rightarrow> rat \<Rightarrow> 'm \<Rightarrow> error + 'm" where
  "refine_region k r submesh =
     (case smooth k 5 submesh of
        Inl e \<Rightarrow> Inl e
      | Inr sm \<Rightarrow>
          (case triangulate k sm of
             Inl e \<Rightarrow> Inl e
           | Inr tri \<Rightarrow>
               (case (if r > 0 then decimate k r tri else Inr tri) of
                  Inl e \<Rightarrow> Inl e
                | Inr dec \<Rightarrow> compute_normals k dec)))"

text \<open>Lines 104 to 108: the export of one region, when \<^verbatim>\<open>args.output\<close> is given.\<close>

definition export_region :: "args \<Rightarrow> nat \<Rightarrow> 'm \<Rightarrow> 'm scene \<Rightarrow> 'm scene" where
  "export_region a idx submesh s =
     (if given (output_path a) then
        (let path = obj_path (the (output_path a)) idx
         in save_mesh path submesh
              (print_line (''Saving component '' @ str_nat idx @ '' to '' @ path @ '' ...'') s))
      else s)"

text \<open>
  The loop \<^verbatim>\<open>for idx, region_id in enumerate(unique_regions)\<close>. There is no
  \<^verbatim>\<open>try\<close> in it: an exception of a stage ends the loop and the run.
\<close>

fun process_regions ::
  "'g polydata refiner \<Rightarrow> args \<Rightarrow> 'g polydata \<Rightarrow> (nat \<times> int) list \<Rightarrow> 'g polydata scene
     \<Rightarrow> 'g polydata outcome" where
  "process_regions k a components [] s = Inr s"
| "process_regions k a components ((idx, region_id) # rest) s =
     (case refine_region k (reduction a) (region_patch components region_id) of
        Inl e \<Rightarrow> Inl (e, s)
      | Inr submesh \<Rightarrow>
          process_regions k a components rest
            (export_region a idx submesh (add_mesh (Random_colour idx) submesh s)))"

definition main_v7 :: "('s, 'g) kernel \<Rightarrow> args \<Rightarrow> 'g polydata outcome" where
  "main_v7 k a =
     (case acquire (read_multi_tiff_pillow k) a empty_scene of
        Inl x \<Rightarrow> Inl x
      | Inr (volume, s1) \<Rightarrow>
          (let (labeled_volume, num_labels) =
                 label_connected_components (connectedComponents k) volume;
               s2 = print_line (''Detected '' @ str_int num_labels @ '' connected components.'') s1
           in case extract_surface k (threshold_volume (1 / 2) labeled_volume) of
                Inl e \<Rightarrow> Inl (e, s2)
              | Inr mesh \<Rightarrow>
                  (case connectivity k mesh of
                     Inl e \<Rightarrow> Inl (e, s2)
                   | Inr components \<Rightarrow>
                       process_regions (stages k) a components
                         (enumerate 0 (unique_regions components)) s2)))"

section \<open>The single-region pipeline (meshpyvista5.py, main)\<close>

text \<open>
  Lines 80 to 89: smooth with ten iterations, triangulate, decimate, compute the
  normals. The decimation is called whatever the factor is.
\<close>

definition refine_single :: "'m refiner \<Rightarrow> rat \<Rightarrow> 'm \<Rightarrow> error + 'm" where
  "refine_single k r mesh =
     (case smooth k 10 mesh of
        Inl e \<Rightarrow> Inl e
      | Inr smoothed_mesh \<Rightarrow>
          (case triangulate k smoothed_mesh of
             Inl e \<Rightarrow> Inl e
           | Inr tri_mesh \<Rightarrow>
               (case decimate k r tri_mesh of
                  Inl e \<Rightarrow> Inl e
                | Inr decimated_mesh \<Rightarrow> compute_normals k decimated_mesh)))"

definition main_v5 ::
  "(string \<Rightarrow> error + volume) \<Rightarrow> (voxel list \<Rightarrow> error + 'm) \<Rightarrow> 'm refiner \<Rightarrow> args \<Rightarrow> 'm outcome" where
  "main_v5 rd extract k a =
     (case acquire rd a empty_scene of
        Inl x \<Rightarrow> Inl x
      | Inr (volume, s1) \<Rightarrow>
          (case extract (threshold_volume (1 / 2) volume) of
             Inl e \<Rightarrow> Inl (e, s1)
           | Inr mesh \<Rightarrow>
               (case refine_single k (reduction a) mesh of
                  Inl e \<Rightarrow> Inl (e, s1)
                | Inr final_mesh \<Rightarrow>
                    (let s2 = (if given (output_path a)
                               then save_mesh (the (output_path a)) final_mesh
                                      (print_line (''Saving mesh to '' @ the (output_path a) @ '' ...'') s1)
                               else s1)
                     in Inr (add_mesh White final_mesh s2)))))"

section \<open>The naming rule in the words of the specification\<close>

text \<open>
  The specification's file-naming convention: the base output path with the region's
  zero-based ordinal index inserted before the extension. The extension starts at the
  last dot of the path; a path without a dot has none.
\<close>

definition split_ext :: "string \<Rightarrow> string \<times> string" where
  "split_ext base =
     (if CHR ''.'' \<in> set base
      then (let n = length (takeWhile (\<lambda>c. c \<noteq> CHR ''.'') (rev base)) + 1
            in (take (length base - n) base, drop (length base - n) base))
      else (base, []))"

definition spec_indexed_name :: "string \<Rightarrow> nat \<Rightarrow> string" where
  "spec_indexed_name base idx =
     (case split_ext base of (stem, ext) \<Rightarrow> stem @ ''_'' @ str_nat idx @ ext)"

section \<open>Stub collaborators for concrete runs\<close>

text \<open>
  A surface element of the stubs is the number of corners of a polygon. Smoothing and
  normal computation return the mesh as it is, triangulation cuts a polygon of \<open>n\<close>
  corners into \<open>n - 2\<close> triangles, decimation keeps the leading share \<open>1 - r\<close> of
  the cells.
\<close>

definition stub_stages :: "nat polydata refiner" where
  "stub_stages =
     \<lparr>smooth = (\<lambda>n m. Inr m),
      triangulate = (\<lambda>m. Inr (concat (map (\<lambda>(g, r). replicate (g - 2) (3, r)) m))),
      decimate = (\<lambda>r m. Inr (take (nat \<lceil>(1 - r) * of_nat (length m)\<rceil>) m)),
      compute_normals = (\<lambda>m. Inr m),
      n_cells = length\<rparr>"


text \<open>The same stages, with a decimation that raises whenever it is called.\<close>

definition stages_no_decimation :: "nat polydata refiner" where
  "stages_no_decimation = stub_stages\<lparr>decimate := (\<lambda>r m. Inl (Raised Decimation))\<rparr>"

text \<open>
  A surface for a selection of voxels: one quadrilateral for every voxel, the voxels of
  one slice in one region.
\<close>

definition stub_surface :: "voxel list \<Rightarrow> nat polydata" where
  "stub_surface vs = map (\<lambda>((i, j, k), x). (4, int i)) vs"

text \<open>
  A kernel that reads the volume \<open>v\<close> from any path, labels pages with \<open>cc_runs\<close> and
  builds the surface above.
\<close>

definition stub_kernel :: "volume \<Rightarrow> nat polydata refiner \<Rightarrow> (voxel list, nat) kernel" where
  "stub_kernel v st =
     \<lparr>read_multi_tiff_pillow = (\<lambda>p. Inr v),
      connectedComponents = cc_runs,
      extract_surface = (\<lambda>vs. Inr vs),
      connectivity = (\<lambda>vs. Inr (stub_surface vs)),
      stages = st\<rparr>"

section \<open>Properties of the labelling\<close>

lemma wrap32_id: "0 \<le> x \<Longrightarrow> x < 2 ^ 31 \<Longrightarrow> wrap32 x = x"
  by (simp add: wrap32_def)

lemma set_concat_all2:
  assumes "list_all2 (list_all2 P) img ls" and "l \<in> set (concat ls)"
  shows "\<exists>p \<in> set (concat img). P p l"
  using assms
proof (induction img ls rule: list_all2_induct)
  case Nil
  then show ?case by simp
next
  case (Cons r img lr ls)
  show ?case
  proof (cases "l \<in> set lr")
    case True
    with Cons.hyps(1) obtain p where "p \<in> set r" "P p l"
      by (metis in_set_conv_nth list_all2_conv_all_nth)
    then show ?thesis by auto
  next
    case False
    with Cons show ?thesis by auto
  qed
qed

lemma contract_labels:
  assumes "cc_contract img (n, ls)"
  shows "{l \<in> set (concat ls). 0 < l} = {1..n - 1}"
proof -
  from assms have a2: "list_all2 (list_all2 (\<lambda>p l. 0 \<le> l \<and> l < n \<and> (l = 0 \<longleftrightarrow> p = 0))) img ls"
    and occ: "list_all (\<lambda>k. k \<in> set (concat ls)) [1..n - 1]"
    by (simp_all add: cc_contract_def)
  have "\<And>l. l \<in> set (concat ls) \<Longrightarrow> 0 \<le> l \<and> l < n"
    using set_concat_all2 [OF a2] by blast
  moreover have "\<And>k. 1 \<le> k \<Longrightarrow> k \<le> n - 1 \<Longrightarrow> k \<in> set (concat ls)"
    using occ by (simp add: list_all_iff)
  ultimately show ?thesis by force
qed

lemma set_concat_offset:
  "set (concat (offset_labels c ls)) = (\<lambda>l. if l > 0 then wrap32 (l + c) else l) ` set (concat ls)"
  by (auto simp: offset_labels_def)

lemma offset_pos:
  assumes "cc_contract img (n, ls)" and "0 \<le> c" and "c + (n - 1) < 2 ^ 31"
  shows "slice_pos (offset_labels c ls) = {c + 1..c + (n - 1)}"
proof -
  have pos: "{l \<in> set (concat ls). 0 < l} = {1..n - 1}"
    using assms(1) by (rule contract_labels)
  have w: "wrap32 (l + c) = l + c" if "l \<in> set (concat ls)" "0 < l" for l
  proof -
    from that pos have "l \<le> n - 1" by auto
    with assms that show ?thesis by (intro wrap32_id) auto
  qed
  have "slice_pos (offset_labels c ls) = (\<lambda>l. l + c) ` {l \<in> set (concat ls). 0 < l}"
    unfolding slice_pos_def set_concat_offset using w assms(2) by (auto simp: image_iff)
  also have "\<dots> = {c + 1..c + (n - 1)}"
    unfolding pos by (auto simp: image_iff)
  finally show ?thesis .
qed

lemma cc_ok_Cons:
  "cc_ok cc (s # rest) \<longleftrightarrow> cc_contract (slice_uint8 s) (cc (slice_uint8 s)) \<and> cc_ok cc rest"
  by (simp add: cc_ok_def)

lemma contract_num_labels: "cc_contract img (n, ls) \<Longrightarrow> 1 \<le> n"
  by (simp add: cc_contract_def)

lemma label_slices_mono:
  "cc_ok cc vol \<Longrightarrow> label_slices cc vol c = (out, fin) \<Longrightarrow> c \<le> fin \<and> length out = length vol"
proof (induction vol arbitrary: c out fin)
  case Nil
  then show ?case by simp
next
  case (Cons s rest)
  obtain n ls where r: "cc (slice_uint8 s) = (n, ls)" by (cases "cc (slice_uint8 s)")
  obtain out' fin' where rec: "label_slices cc rest (c + (n - 1)) = (out', fin')"
    by (cases "label_slices cc rest (c + (n - 1))")
  from Cons.prems(1) r have n: "1 \<le> n" and ok: "cc_ok cc rest"
    by (auto simp: cc_ok_Cons dest: contract_num_labels)
  from Cons.IH [OF ok rec] have "c + (n - 1) \<le> fin'" "length out' = length rest" by auto
  moreover from Cons.prems(2) r rec have "out = offset_labels c ls # out'" "fin = fin'"
    by auto
  ultimately show ?case using n by auto
qed

lemma label_slices_pos:
  "cc_ok cc vol \<Longrightarrow> 0 \<le> c \<Longrightarrow> label_slices cc vol c = (out, fin) \<Longrightarrow> fin < 2 ^ 31 \<Longrightarrow>
     (\<Union>s \<in> set out. slice_pos s) = {c + 1..fin}"
proof (induction vol arbitrary: c out fin)
  case Nil
  then show ?case by simp
next
  case (Cons s rest)
  obtain n ls where r: "cc (slice_uint8 s) = (n, ls)" by (cases "cc (slice_uint8 s)")
  obtain out' fin' where rec: "label_slices cc rest (c + (n - 1)) = (out', fin')"
    by (cases "label_slices cc rest (c + (n - 1))")
  from Cons.prems(1) r have con: "cc_contract (slice_uint8 s) (n, ls)" and ok: "cc_ok cc rest"
    by (auto simp: cc_ok_Cons)
  from con have n: "1 \<le> n" by (rule contract_num_labels)
  from Cons.prems(3) r rec have out: "out = offset_labels c ls # out'" and fin: "fin = fin'"
    by auto
  from label_slices_mono [OF ok rec] have le: "c + (n - 1) \<le> fin'" by simp
  have hd: "slice_pos (offset_labels c ls) = {c + 1..c + (n - 1)}"
    using con Cons.prems(2) le fin Cons.prems(4) by (intro offset_pos) auto
  have tl: "(\<Union>s \<in> set out'. slice_pos s) = {c + (n - 1) + 1..fin'}"
    using Cons.IH [OF ok _ rec] Cons.prems(2,4) n fin by simp
  show ?case unfolding out fin using hd tl le n by auto
qed

lemma label_slices_disjoint:
  "cc_ok cc vol \<Longrightarrow> 0 \<le> c \<Longrightarrow> label_slices cc vol c = (out, fin) \<Longrightarrow> fin < 2 ^ 31 \<Longrightarrow>
     i < j \<Longrightarrow> j < length out \<Longrightarrow> slice_pos (out ! i) \<inter> slice_pos (out ! j) = {}"
proof (induction vol arbitrary: c out fin i j)
  case Nil
  then show ?case by simp
next
  case (Cons s rest)
  obtain n ls where r: "cc (slice_uint8 s) = (n, ls)" by (cases "cc (slice_uint8 s)")
  obtain out' fin' where rec: "label_slices cc rest (c + (n - 1)) = (out', fin')"
    by (cases "label_slices cc rest (c + (n - 1))")
  from Cons.prems(1) r have con: "cc_contract (slice_uint8 s) (n, ls)" and ok: "cc_ok cc rest"
    by (auto simp: cc_ok_Cons)
  from con have n: "1 \<le> n" by (rule contract_num_labels)
  from Cons.prems(3) r rec have out: "out = offset_labels c ls # out'" and fin: "fin = fin'"
    by auto
  from label_slices_mono [OF ok rec] have le: "c + (n - 1) \<le> fin'" by simp
  have c': "0 \<le> c + (n - 1)" using Cons.prems(2) n by simp
  have f': "fin' < 2 ^ 31" using Cons.prems(4) fin by simp
  obtain j' where j: "j = Suc j'" using Cons.prems(5) by (cases j) auto
  with Cons.prems(6) out have j'len: "j' < length out'" by simp
  show ?case
  proof (cases i)
    case 0
    have hd: "slice_pos (offset_labels c ls) = {c + 1..c + (n - 1)}"
      using con Cons.prems(2) le f' by (intro offset_pos) auto
    have "slice_pos (out' ! j') \<subseteq> (\<Union>s \<in> set out'. slice_pos s)"
      using j'len by (meson UN_upper nth_mem)
    also have "\<dots> = {c + (n - 1) + 1..fin'}"
      by (rule label_slices_pos [OF ok c' rec f'])
    finally show ?thesis using hd 0 j out by auto
  next
    case (Suc i')
    with Cons.prems(5) j have "i' < j'" by simp
    from Cons.IH [OF ok c' rec f' this j'len] show ?thesis by (simp add: out Suc j)
  qed
qed

lemma foldl_label_slices:
  "length lv0 = length pre + length post \<Longrightarrow>
     foldl (label_slice_step cc (pre @ post)) (lv0, c) [length pre..<length pre + length post]
       = (take (length pre) lv0 @ fst (label_slices cc post c), snd (label_slices cc post c))"
proof (induction post arbitrary: pre lv0 c)
  case Nil
  then show ?case by simp
next
  case (Cons s rest)
  obtain n ls where r: "cc (slice_uint8 s) = (n, ls)" by (cases "cc (slice_uint8 s)")
  let ?lv = "lv0[length pre := offset_labels c ls]"
  have step: "label_slice_step cc (pre @ s # rest) (lv0, c) (length pre) = (?lv, c + (n - 1))"
    by (simp add: label_slice_step_def r)
  have idx: "[length pre..<length pre + length (s # rest)]
      = length pre # [length (pre @ [s])..<length (pre @ [s]) + length rest]"
    by (simp add: upt_rec [of "length pre"] Suc_le_eq)
  have len: "length ?lv = length (pre @ [s]) + length rest"
    using Cons.prems by simp
  have tk: "take (length (pre @ [s])) ?lv = take (length pre) lv0 @ [offset_labels c ls]"
    using Cons.prems by (simp add: take_Suc_conv_app_nth)
  have "foldl (label_slice_step cc (pre @ s # rest)) (lv0, c) [length pre..<length pre + length (s # rest)]
      = foldl (label_slice_step cc ((pre @ [s]) @ rest)) (?lv, c + (n - 1))
          [length (pre @ [s])..<length (pre @ [s]) + length rest]"
    unfolding idx by (simp add: step)
  also have "\<dots> = (take (length (pre @ [s])) ?lv @ fst (label_slices cc rest (c + (n - 1))),
      snd (label_slices cc rest (c + (n - 1))))"
    using len by (rule Cons.IH)
  finally show ?case
    unfolding tk by (simp add: r split: prod.splits)
qed

lemma label_connected_components_slices:
  "label_connected_components cc volume
     = (case label_slices cc volume 1 of (lv, c) \<Rightarrow> (lv, c - 1))"
proof -
  have "foldl (label_slice_step cc ([] @ volume)) (zeros_like volume, 1)
      [length ([] :: volume)..<length ([] :: volume) + length volume]
    = (take (length ([] :: volume)) (zeros_like volume) @ fst (label_slices cc volume 1),
       snd (label_slices cc volume 1))"
    by (rule foldl_label_slices) (simp add: zeros_like_def)
  then show ?thesis
    by (simp add: label_connected_components_def split: prod.splits)
qed

lemma lcc_unfold:
  "label_connected_components cc volume = (lv, count) \<Longrightarrow> label_slices cc volume 1 = (lv, count + 1)"
  by (auto simp: label_connected_components_slices split: prod.splits)

lemma vol_pos_Union:
  "{l \<in> set (concat (concat lv)). 0 < l} = (\<Union>s \<in> set lv. slice_pos s)"
  by (auto simp: slice_pos_def)

text \<open>
  C1. On the volume of one slice with a single foreground voxel, with any labeller that
  obeys its contract on that page, the labelling returns the component count 1 and gives
  the voxel the label 2: the largest label is not the component count, and the labels of
  the first slice do not start at 1.
\<close>

theorem first_slice_labels_start_at_two:
  assumes "cc_contract [[1]] (cc [[1]])"
  shows "label_connected_components cc [[[1]]] = ([[[2]]], 1)"
proof -
  obtain n ls where r: "cc [[1]] = (n, ls)" by (cases "cc [[1]]")
  from assms r
  have a2: "list_all2 (list_all2 (\<lambda>p l. 0 \<le> l \<and> l < n \<and> (l = 0 \<longleftrightarrow> p = 0))) [[1 :: int]] ls"
    and occ: "list_all (\<lambda>k. k \<in> set (concat ls)) [1..n - 1]"
    by (simp_all add: cc_contract_def)
  from a2 obtain l where ls: "ls = [[l]]" and l: "0 \<le> l" "l < n" "l \<noteq> 0"
    by (auto simp: list_all2_Cons1)
  from l have "n - 1 \<in> set [1..n - 1]" "1 \<in> set [1..n - 1]" by simp_all
  with occ have "n - 1 \<in> set (concat ls)" "1 \<in> set (concat ls)"
    by (simp_all add: list_all_iff)
  with ls have "l = 1" "n = 2" by simp_all
  with r ls show ?thesis
    by (simp add: label_connected_components_slices slice_uint8_def astype_uint8_def
        offset_labels_def wrap32_def)
qed

theorem first_slice_labels_start_at_two_witness:
  "cc_contract [[1]] (cc_runs [[1]])
   \<and> label_connected_components cc_runs [[[1]]] = ([[[2]]], 1)"
proof -
  have c: "cc_contract [[1]] (cc_runs [[1]])"
    by (simp add: cc_contract_def cc_runs_def upto.simps)
  from first_slice_labels_start_at_two [of cc_runs] c show ?thesis by simp
qed

text \<open>
  C9. When the labeller obeys its contract, at least one component is found and the
  labels fit into int32, the positive labels of the labelled volume are exactly
  2, ..., componentCount + 1: the smallest is 2 and the largest label of the volume is
  componentCount + 1.
\<close>

theorem positive_labels_range:
  assumes "cc_ok cc volume"
    and "label_connected_components cc volume = (labeled_volume, count)"
    and "0 < count" and "count + 1 < 2 ^ 31"
  shows "{l \<in> set (concat (concat labeled_volume)). 0 < l} = {2..count + 1}
       \<and> Min {l \<in> set (concat (concat labeled_volume)). 0 < l} = 2
       \<and> Max (set (concat (concat labeled_volume))) = count + 1"
proof -
  define L where "L = set (concat (concat labeled_volume))"
  define P where "P = {l \<in> L. 0 < l}"
  have run: "label_slices cc volume 1 = (labeled_volume, count + 1)"
    using assms(2) by (rule lcc_unfold)
  have "(\<Union>s \<in> set labeled_volume. slice_pos s) = {1 + 1..count + 1}"
    using assms(1) _ run assms(4) by (rule label_slices_pos) simp
  then have range: "P = {2..count + 1}"
    unfolding P_def L_def vol_pos_Union by simp
  have least: "Min P = 2"
    unfolding range using assms(3) by (intro Min_eqI) auto
  have "count + 1 \<in> P"
    unfolding range using assms(3) by simp
  then have top: "count + 1 \<in> L"
    by (simp add: P_def)
  have bound: "l \<le> count + 1" if "l \<in> L" for l
  proof (cases "0 < l")
    case True
    with that have "l \<in> P" by (simp add: P_def)
    then show ?thesis unfolding range by simp
  next
    case False
    with assms(3) show ?thesis by simp
  qed
  have "Max L = count + 1"
    using _ bound top by (rule Max_eqI) (simp add: L_def)
  with range least show ?thesis
    unfolding P_def L_def by simp
qed

theorem positive_labels_range_witness:
  "cc_ok cc_runs [[[1, 0, 256, 3]], [[1, 1, 0, 7]]]
   \<and> label_connected_components cc_runs [[[1, 0, 256, 3]], [[1, 1, 0, 7]]]
       = ([[[2, 0, 0, 3]], [[4, 4, 0, 5]]], 4)
   \<and> {l \<in> set (concat (concat [[[2, 0, 0, 3]], [[4, 4, 0, 5 :: int]]])). 0 < l} = {2..4 + 1}
   \<and> Max (set (concat (concat [[[2, 0, 0, 3]], [[4, 4, 0, 5 :: int]]]))) = 4 + 1"
proof -
  have ok: "cc_ok cc_runs [[[1, 0, 256, 3]], [[1, 1, 0, 7]]]"
    by (simp add: cc_ok_def cc_contract_def cc_runs_def slice_uint8_def astype_uint8_def
        upto.simps)
  have run: "label_connected_components cc_runs [[[1, 0, 256, 3]], [[1, 1, 0, 7]]]
       = ([[[2, 0, 0, 3]], [[4, 4, 0, 5]]], 4)"
    by (simp add: label_connected_components_slices cc_runs_def slice_uint8_def astype_uint8_def
        offset_labels_def wrap32_def)
  from positive_labels_range [OF ok run] ok run show ?thesis by simp
qed

text \<open>
  C6. When the labeller obeys its contract and the labels fit into int32, two voxels
  with positive labels in two different slices of the labelled volume carry different
  labels, whatever their positions inside the slices are.
\<close>

theorem labels_differ_across_slices:
  assumes "cc_ok cc volume"
    and "label_connected_components cc volume = (labeled_volume, count)"
    and "count + 1 < 2 ^ 31"
    and "i < j" and "j < length labeled_volume"
    and "a \<in> set (concat (labeled_volume ! i))" and "0 < a"
    and "b \<in> set (concat (labeled_volume ! j))" and "0 < b"
  shows "a \<noteq> b"
proof -
  have run: "label_slices cc volume 1 = (labeled_volume, count + 1)"
    using assms(2) by (rule lcc_unfold)
  have "slice_pos (labeled_volume ! i) \<inter> slice_pos (labeled_volume ! j) = {}"
    using assms(1) _ run assms(3,4,5) by (rule label_slices_disjoint) simp
  moreover have "a \<in> slice_pos (labeled_volume ! i)" "b \<in> slice_pos (labeled_volume ! j)"
    using assms(6-9) by (simp_all add: slice_pos_def)
  ultimately show ?thesis by auto
qed

theorem labels_differ_across_slices_witness:
  "cc_ok cc_runs [[[1]], [[1]]]
   \<and> label_connected_components cc_runs [[[1]], [[1]]] = ([[[2]], [[3]]], 2)
   \<and> (2 :: int) \<in> set (concat ([[[2]], [[3]]] ! 0))
   \<and> (3 :: int) \<in> set (concat ([[[2]], [[3]]] ! 1))
   \<and> (2 :: int) \<noteq> 3"
proof -
  have ok: "cc_ok cc_runs [[[1]], [[1]]]"
    by (simp add: cc_ok_def cc_contract_def cc_runs_def slice_uint8_def astype_uint8_def
        upto.simps)
  have run: "label_connected_components cc_runs [[[1]], [[1]]] = ([[[2]], [[3]]], 2)"
    by (simp add: label_connected_components_slices cc_runs_def slice_uint8_def astype_uint8_def
        offset_labels_def wrap32_def)
  have "(2 :: int) \<noteq> 3"
    by (rule labels_differ_across_slices [OF ok run, of 0 1]) simp_all
  with ok run show ?thesis by simp
qed




lemma contract_background:
  assumes "cc_contract img (n, ls)" and "\<forall>r \<in> set img. \<forall>p \<in> set r. p = 0"
  shows "n = 1 \<and> (\<forall>r \<in> set ls. \<forall>l \<in> set r. l = 0)"
proof -
  from assms(1)
  have a2: "list_all2 (list_all2 (\<lambda>p l. 0 \<le> l \<and> l < n \<and> (l = 0 \<longleftrightarrow> p = 0))) img ls"
    and occ: "list_all (\<lambda>k. k \<in> set (concat ls)) [1..n - 1]" and n: "1 \<le> n"
    by (simp_all add: cc_contract_def)
  have zero: "l = 0" if "l \<in> set (concat ls)" for l
    using set_concat_all2 [OF a2 that] assms(2) by auto
  have "n = 1"
  proof (rule ccontr)
    assume "n \<noteq> 1"
    with n have "1 \<in> set [1..n - 1]" by simp
    with occ have "(1 :: int) \<in> set (concat ls)" by (simp add: list_all_iff)
    with zero show False by fastforce
  qed
  with zero show ?thesis by auto
qed

lemma label_slices_background:
  "cc_ok cc vol \<Longrightarrow> \<forall>s \<in> set vol. \<forall>r \<in> set s. \<forall>v \<in> set r. v mod 256 = 0 \<Longrightarrow>
     label_slices cc vol c = (out, fin) \<Longrightarrow>
     fin = c \<and> (\<forall>s \<in> set out. \<forall>r \<in> set s. \<forall>l \<in> set r. l = 0)"
proof (induction vol arbitrary: c out fin)
  case Nil
  then show ?case by simp
next
  case (Cons s rest)
  obtain n ls where r: "cc (slice_uint8 s) = (n, ls)" by (cases "cc (slice_uint8 s)")
  obtain out' fin' where rec: "label_slices cc rest (c + (n - 1)) = (out', fin')"
    by (cases "label_slices cc rest (c + (n - 1))")
  from Cons.prems(1) r have con: "cc_contract (slice_uint8 s) (n, ls)" and ok: "cc_ok cc rest"
    by (auto simp: cc_ok_Cons)
  from Cons.prems(3) r rec have out: "out = offset_labels c ls # out'" and fin: "fin = fin'"
    by auto
  have "\<forall>r \<in> set (slice_uint8 s). \<forall>p \<in> set r. p = 0"
    using Cons.prems(2) by (auto simp: slice_uint8_def astype_uint8_def)
  with con have n: "n = 1" and z: "\<forall>r \<in> set ls. \<forall>l \<in> set r. l = 0"
    using contract_background by blast+
  from z have hd: "\<forall>r \<in> set (offset_labels c ls). \<forall>l \<in> set r. l = 0"
    by (auto simp: offset_labels_def)
  from Cons.IH [OF ok _ rec] Cons.prems(2)
  have "fin' = c + (n - 1)" "\<forall>s \<in> set out'. \<forall>r \<in> set s. \<forall>l \<in> set r. l = 0" by auto
  with n hd show ?case by (simp add: out fin)
qed



section \<open>Properties of the partition into regions\<close>



section \<open>Properties of the export names\<close>

lemma no_early_match:
  assumes "\<not> prefix ''.obj'' (c # cs)"
  shows "\<not> prefix ''.obj'' (c # cs @ ''.obj'')"
proof
  assume p: "prefix ''.obj'' (c # cs @ ''.obj'')"
  show False
  proof (cases cs)
    case Nil
    with p show False by simp
  next
    case c1: (Cons d ds)
    show False
    proof (cases ds)
      case Nil
      with p c1 show False by simp
    next
      case c2: (Cons e es)
      show False
      proof (cases es)
        case Nil
        with p c1 c2 show False by simp
      next
        case (Cons f fs)
        with p c1 c2 have "prefix ''.obj'' (c # cs)" by simp
        with assms show False by simp
      qed
    qed
  qed
qed

lemma replace_skip:
  "old \<noteq> [] \<Longrightarrow> \<not> prefix old (c # cs) \<Longrightarrow> replace old new (c # cs) = c # replace old new cs"
  by simp

lemma map_enumerate_index:
  "map (\<lambda>(idx, rid). f idx) (enumerate n xs) = map f [n..<n + length xs]"
proof -
  have "map (\<lambda>(idx, rid). f idx) (enumerate n xs) = map (f \<circ> fst) (enumerate n xs)"
    by (simp add: case_prod_unfold comp_def)
  also have "\<dots> = map f (map fst (enumerate n xs))"
    by (simp only: map_map)
  also have "\<dots> = map f [n..<n + length xs]"
    by (simp only: map_fst_enumerate)
  finally show ?thesis .
qed

lemma replace_obj_suffix:
  "\<not> sublist ''.obj'' stem \<Longrightarrow> replace ''.obj'' new (stem @ ''.obj'') = stem @ new"
proof (induction stem)
  case Nil
  show ?case by simp
next
  case (Cons c cs)
  from Cons.prems have np: "\<not> prefix ''.obj'' (c # cs)" and ns: "\<not> sublist ''.obj'' cs"
    by (simp_all add: sublist_Cons_right)
  from np have "\<not> prefix ''.obj'' (c # cs @ ''.obj'')" by (rule no_early_match)
  then have "replace ''.obj'' new (c # cs @ ''.obj'') = c # replace ''.obj'' new (cs @ ''.obj'')"
    by (intro replace_skip) simp_all
  with Cons.IH [OF ns] show ?case by (simp only: append_Cons)
qed

lemma obj_path_suffix:
  "\<not> sublist ''.obj'' stem \<Longrightarrow> obj_path (stem @ ''.obj'') idx = stem @ ''_'' @ str_nat idx @ ''.obj''"
  by (simp add: obj_path_def replace_obj_suffix)

lemma split_ext_obj: "split_ext (stem @ ''.obj'') = (stem, ''.obj'')"
  by (simp add: split_ext_def)

lemma process_regions_saved:
  "process_regions k a components regions s = Inr s' \<Longrightarrow> given (output_path a) \<Longrightarrow>
     map fst (saved s') = map fst (saved s) @ map (\<lambda>(idx, rid). obj_path (the (output_path a)) idx) regions"
proof (induction regions arbitrary: s)
  case Nil
  then show ?case by simp
next
  case (Cons x regions)
  obtain idx rid where x: "x = (idx, rid)" by (cases x)
  from Cons.prems(1) x obtain submesh
    where ref: "refine_region k (reduction a) (region_patch components rid) = Inr submesh"
      and rest: "process_regions k a components regions
            (export_region a idx submesh (add_mesh (Random_colour idx) submesh s)) = Inr s'"
    by (auto split: sum.splits)
  have "map fst (saved (export_region a idx submesh (add_mesh (Random_colour idx) submesh s)))
        = map fst (saved s) @ [obj_path (the (output_path a)) idx]"
    using Cons.prems(2)
    by (simp add: export_region_def save_mesh_def print_line_def add_mesh_def Let_def)
  with Cons.IH [OF rest Cons.prems(2)] show ?case by (simp add: x)
qed

text \<open>
  C5, amended. When the requested base path ends in \<open>.obj\<close> and \<open>.obj\<close> occurs nowhere
  before that, a run that completes writes, for the region of index i, the file whose name
  is the base path with \<open>_i\<close> inserted before the extension, in partition order.
\<close>

theorem export_names_for_obj_base:
  assumes "output_path a = Some (stem @ ''.obj'')"
    and "\<not> sublist ''.obj'' stem"
    and "process_regions k a components (enumerate 0 region_ids) s = Inr s'"
  shows "map fst (saved s')
           = map fst (saved s) @ map (\<lambda>i. stem @ ''_'' @ str_nat i @ ''.obj'') [0..<length region_ids]
       \<and> (\<forall>i. stem @ ''_'' @ str_nat i @ ''.obj'' = spec_indexed_name (stem @ ''.obj'') i)"
proof -
  have g: "given (output_path a)" using assms(1) by simp
  have "map (\<lambda>(idx, rid). obj_path (the (output_path a)) idx) (enumerate 0 region_ids)
        = map (obj_path (stem @ ''.obj'')) [0..<0 + length region_ids]"
    unfolding assms(1) option.sel by (rule map_enumerate_index)
  then have "map (\<lambda>(idx, rid). obj_path (the (output_path a)) idx) (enumerate 0 region_ids)
        = map (\<lambda>i. stem @ ''_'' @ str_nat i @ ''.obj'') [0..<length region_ids]"
    using assms(2) by (simp add: obj_path_suffix)
  with process_regions_saved [OF assms(3) g] show ?thesis
    by (simp add: spec_indexed_name_def split_ext_obj)
qed

theorem export_names_for_obj_base_witness:
  "process_regions stub_stages
       \<lparr>input_path = None, output_path = Some (''shape'' @ ''.obj''), reduction = 0\<rparr>
       [(4, 0), (4, 1), (4, 2)] (enumerate 0 [0, 1, 2]) empty_scene
     = Inr \<lparr>console = [''Saving component 0 to shape_0.obj ...'',
                        ''Saving component 1 to shape_1.obj ...'',
                        ''Saving component 2 to shape_2.obj ...''],
            plotted = [(Random_colour 0, [(3, 0), (3, 0)]), (Random_colour 1, [(3, 1), (3, 1)]),
                       (Random_colour 2, [(3, 2), (3, 2)])],
            saved = [(''shape_0.obj'', [(3, 0), (3, 0)]), (''shape_1.obj'', [(3, 1), (3, 1)]),
                     (''shape_2.obj'', [(3, 2), (3, 2)])]\<rparr>
   \<and> \<not> sublist ''.obj'' ''shape''
   \<and> map fst [(''shape_0.obj'', [(3, 0), (3, 0)]), (''shape_1.obj'', [(3 :: nat, 1 :: int), (3, 1)]),
                (''shape_2.obj'', [(3, 2), (3, 2)])]
       = [''shape_0.obj'', ''shape_1.obj'', ''shape_2.obj'']"
proof -
  let ?a = "\<lparr>input_path = None, output_path = Some (''shape'' @ ''.obj''), reduction = 0\<rparr>"
  let ?s = "\<lparr>console = [''Saving component 0 to shape_0.obj ...'',
                        ''Saving component 1 to shape_1.obj ...'',
                        ''Saving component 2 to shape_2.obj ...''],
            plotted = [(Random_colour 0, [(3, 0), (3, 0)]), (Random_colour 1, [(3, 1), (3, 1)]),
                       (Random_colour 2, [(3, 2), (3, 2)])],
            saved = [(''shape_0.obj'', [(3, 0), (3, 0)]), (''shape_1.obj'', [(3 :: nat, 1 :: int), (3, 1)]),
                     (''shape_2.obj'', [(3, 2), (3, 2)])]\<rparr>"
  have out: "output_path ?a = Some (''shape'' @ ''.obj'')" by simp
  have ns: "\<not> sublist ''.obj'' ''shape''" by (simp add: sublist_Cons_right)
  have run: "process_regions stub_stages ?a [(4, 0), (4, 1), (4, 2)] (enumerate 0 [0, 1, 2])
      empty_scene = Inr ?s"
    by (simp add: stub_stages_def empty_scene_def region_patch_def threshold_between_def
        refine_region_def export_region_def add_mesh_def save_mesh_def print_line_def
        obj_path_def str_nat.simps digit_char_def numeral_2_eq_2)
  from export_names_for_obj_base [OF out ns run] ns run show ?thesis
    by simp
qed

theorem export_names_counterexample:
  "obj_path ''scan.stl'' 0 = ''scan.stl'' \<and> obj_path ''scan.stl'' 1 = ''scan.stl''
   \<and> spec_indexed_name ''scan.stl'' 0 = ''scan_0.stl''
   \<and> obj_path ''run.obj.d/s.obj'' 0 = ''run_0.obj.d/s_0.obj''
   \<and> spec_indexed_name ''run.obj.d/s.obj'' 0 = ''run.obj.d/s_0.obj''"
  by (simp add: obj_path_def spec_indexed_name_def split_ext_def str_nat.simps digit_char_def)

section \<open>Properties of the region loop\<close>





section \<open>Properties of the decimation stage\<close>

text \<open>
  C3, amended. With a kernel whose decimation never adds cells and whose normal
  computation keeps their number: in the multi-region pipeline decimation is applied only
  when the factor is above 0 (for a factor of 0 or less the normals are computed on the
  triangulated patch itself and the triangle count is the same; for a factor above 0 the
  count is not larger); in the single-region pipeline decimation is applied for every
  factor, and the count is not larger than that of the triangulated mesh.
\<close>

theorem decimation_guard:
  assumes "\<forall>r m m'. decimate k r m = Inr m' \<longrightarrow> n_cells k m' \<le> n_cells k m"
    and "\<forall>m m'. compute_normals k m = Inr m' \<longrightarrow> n_cells k m' = n_cells k m"
  shows "(smooth k 5 patch = Inr sm \<and> triangulate k sm = Inr tri
            \<and> refine_region k r patch = Inr refined \<longrightarrow>
          (r \<le> 0 \<longrightarrow> compute_normals k tri = Inr refined
                       \<and> n_cells k refined = n_cells k tri)
          \<and> (0 < r \<longrightarrow> (\<exists>dec. decimate k r tri = Inr dec \<and> compute_normals k dec = Inr refined)
                       \<and> n_cells k refined \<le> n_cells k tri))
       \<and> (smooth k 10 mesh = Inr sm' \<and> triangulate k sm' = Inr tri'
            \<and> refine_single k r mesh = Inr final \<longrightarrow>
          (\<exists>dec. decimate k r tri' = Inr dec \<and> compute_normals k dec = Inr final)
          \<and> n_cells k final \<le> n_cells k tri')"
proof (intro conjI impI)
  assume h: "smooth k 5 patch = Inr sm \<and> triangulate k sm = Inr tri
      \<and> refine_region k r patch = Inr refined"
  then have s: "smooth k 5 patch = Inr sm" and t: "triangulate k sm = Inr tri"
    and run: "refine_region k r patch = Inr refined"
    by simp_all
  {
    assume "r \<le> 0"
    with run show skip: "compute_normals k tri = Inr refined"
      by (simp add: refine_region_def s t)
    with assms(2) show "n_cells k refined = n_cells k tri" by blast
  }
  {
    assume "0 < r"
    with run show ex: "\<exists>dec. decimate k r tri = Inr dec \<and> compute_normals k dec = Inr refined"
      by (simp add: refine_region_def s t split: sum.splits)
    then obtain dec where "decimate k r tri = Inr dec" "compute_normals k dec = Inr refined"
      by blast
    with assms have "n_cells k dec \<le> n_cells k tri" "n_cells k refined = n_cells k dec"
      by blast+
    then show "n_cells k refined \<le> n_cells k tri" by simp
  }
next
  assume h: "smooth k 10 mesh = Inr sm' \<and> triangulate k sm' = Inr tri'
      \<and> refine_single k r mesh = Inr final"
  then have s: "smooth k 10 mesh = Inr sm'" and t: "triangulate k sm' = Inr tri'"
    and run: "refine_single k r mesh = Inr final"
    by simp_all
  from run show ex: "\<exists>dec. decimate k r tri' = Inr dec \<and> compute_normals k dec = Inr final"
    by (simp add: refine_single_def s t split: sum.splits)
  then obtain dec where "decimate k r tri' = Inr dec" "compute_normals k dec = Inr final"
    by blast
  with assms have "n_cells k dec \<le> n_cells k tri'" "n_cells k final = n_cells k dec"
    by blast+
  then show "n_cells k final \<le> n_cells k tri'" by simp
qed

theorem decimation_guard_witness:
  "refine_region stub_stages 0 [(4, 0), (4, 0)] = Inr [(3, 0), (3, 0), (3, 0), (3, 0)]
   \<and> n_cells stub_stages [(3, 0), (3, 0), (3, 0), (3, 0)] = 4
   \<and> refine_region stub_stages (1 / 2) [(4, 0), (4, 0)] = Inr [(3, 0), (3, 0)]
   \<and> n_cells stub_stages [(3, 0), (3, 0)] \<le> n_cells stub_stages [(3, 0), (3, 0), (3, 0), (3, 0)]
   \<and> refine_single stub_stages 0 [(4, 0), (4, 0)] = Inr [(3, 0), (3, 0), (3, 0), (3, 0)]
   \<and> refine_single stub_stages (1 / 2) [(4, 0), (4, 0)] = Inr [(3, 0), (3, 0)]"
proof -
  let ?p = "[(4, 0), (4, 0)] :: nat polydata"
  let ?t = "[(3, 0), (3, 0), (3, 0), (3, 0)] :: nat polydata"
  let ?d = "[(3, 0), (3, 0)] :: nat polydata"
  have dec: "\<forall>r m m'. decimate stub_stages r m = Inr m'
      \<longrightarrow> n_cells stub_stages m' \<le> n_cells stub_stages m"
    by (auto simp: stub_stages_def)
  have nor: "\<forall>m m'. compute_normals stub_stages m = Inr m'
      \<longrightarrow> n_cells stub_stages m' = n_cells stub_stages m"
    by (auto simp: stub_stages_def)
  have sm: "smooth stub_stages n ?p = Inr ?p" for n
    by (simp add: stub_stages_def)
  have tri: "triangulate stub_stages ?p = Inr ?t"
    by (simp add: stub_stages_def numeral_2_eq_2)
  have r0: "refine_region stub_stages 0 ?p = Inr ?t"
    by (simp add: refine_region_def stub_stages_def numeral_2_eq_2)
  have r1: "refine_region stub_stages (1 / 2) ?p = Inr ?d"
    by (simp add: refine_region_def stub_stages_def numeral_2_eq_2)
  have s0: "refine_single stub_stages 0 ?p = Inr ?t"
    by (simp add: refine_single_def stub_stages_def numeral_2_eq_2)
  have s1: "refine_single stub_stages (1 / 2) ?p = Inr ?d"
    by (simp add: refine_single_def stub_stages_def numeral_2_eq_2)
  have cells: "n_cells stub_stages ?t = 4"
    by (simp add: stub_stages_def)
  from decimation_guard [OF dec nor, of ?p ?p ?t 0 ?t ?p ?p ?t ?t]
    decimation_guard [OF dec nor, of ?p ?p ?t "1 / 2" ?d ?p ?p ?t ?d]
    sm tri r0 r1 s0 s1 cells
  show ?thesis by simp
qed

theorem decimation_guard_counterexample:
  "refine_single stages_no_decimation 0 [(4, 0)] = Inl (Raised Decimation)
   \<and> refine_region stages_no_decimation 0 [(4, 0)] = Inr [(3, 0), (3, 0)]
   \<and> main_v5 (\<lambda>p. Inr [[[1, 0, 3]], [[5, 5, 0]]]) (\<lambda>vs. Inr (stub_surface vs))
        stages_no_decimation
        \<lparr>input_path = Some ''v.tif'', output_path = Some ''shape.stl'', reduction = 0\<rparr>
      = Inl (Raised Decimation,
             \<lparr>console = [''Loading multi-page TIFF from v.tif...''],
              plotted = [], saved = []\<rparr>)"
  by (simp add: refine_single_def refine_region_def stages_no_decimation_def stub_stages_def
      numeral_2_eq_2 main_v5_def acquire_def empty_scene_def print_line_def
      threshold_volume_def voxels_def enumerate_eq_zip stub_surface_def)

section \<open>Properties of a whole run\<close>







lemma voxels_values:
  "(q, x) \<in> set (voxels v) \<Longrightarrow> \<exists>s \<in> set v. \<exists>r \<in> set s. x \<in> set r"
  by (auto simp: voxels_def in_set_enumerate_eq) (metis add.right_neutral nth_mem)

lemma threshold_volume_background:
  assumes "\<forall>s \<in> set lv. \<forall>r \<in> set s. \<forall>l \<in> set r. l = 0"
  shows "threshold_volume (1 / 2) lv = []"
proof -
  have "\<not> (1 / 2 :: rat) \<le> of_int x" if "(q, x) \<in> set (voxels lv)" for q x
  proof -
    from voxels_values [OF that] assms have "x = 0" by blast
    then show ?thesis by simp
  qed
  then show ?thesis
    by (auto simp: threshold_volume_def filter_empty_conv)
qed

text \<open>
  C8. For a volume whose voxels are all 0, read from the given path, with a labeller that
  obeys its contract and a kernel that returns the empty surface for an empty selection
  and no region for the empty surface: the component count is 0, there is no region, and
  the run of the multi-region pipeline ends normally with nothing rendered and no file
  written.
\<close>

theorem background_volume_yields_nothing:
  fixes k :: "('s, 'g) kernel"
  assumes "input_path a = Some p" and "p \<noteq> []"
    and "read_multi_tiff_pillow k p = Inr volume"
    and "cc_ok (connectedComponents k) volume"
    and "\<forall>s \<in> set volume. \<forall>r \<in> set s. \<forall>v \<in> set r. v = 0"
    and "extract_surface k [] = Inr empty_surface"
    and "connectivity k empty_surface = Inr []"
  shows "snd (label_connected_components (connectedComponents k) volume) = 0
       \<and> enumerate 0 (unique_regions ([] :: 'g polydata)) = []
       \<and> main_v7 k a
           = Inr \<lparr>console = [''Loading multi-page TIFF from '' @ p @ ''...'',
                              ''Detected 0 connected components.''],
                  plotted = [], saved = []\<rparr>"
proof -
  obtain lv n where l: "label_connected_components (connectedComponents k) volume = (lv, n)"
    by (cases "label_connected_components (connectedComponents k) volume")
  have bg: "\<forall>s \<in> set volume. \<forall>r \<in> set s. \<forall>v \<in> set r. v mod 256 = 0"
    using assms(5) by fastforce
  from label_slices_background [OF assms(4) bg lcc_unfold [OF l]]
  have n: "n = 0" and z: "\<forall>s \<in> set lv. \<forall>r \<in> set s. \<forall>l \<in> set r. l = 0"
    by simp_all
  have th: "threshold_volume (1 / 2) lv = []"
    using z by (rule threshold_volume_background)
  have acq: "acquire (read_multi_tiff_pillow k) a empty_scene
      = Inr (volume, \<lparr>console = [''Loading multi-page TIFF from '' @ p @ ''...''],
                       plotted = [], saved = []\<rparr>)"
    using assms(1-3) by (simp add: acquire_def empty_scene_def print_line_def)
  have d: "str_int 0 = ''0''"
    by (simp add: str_int_def str_nat.simps digit_char_def)
  have u: "unique_regions ([] :: 'g polydata) = []"
    by (simp add: unique_regions_def)
  have "main_v7 k a
      = Inr \<lparr>console = [''Loading multi-page TIFF from '' @ p @ ''...'',
                         ''Detected 0 connected components.''],
             plotted = [], saved = []\<rparr>"
    by (simp add: main_v7_def acq l n th assms(6,7) u d print_line_def)
  with l n u show ?thesis by simp
qed

theorem background_volume_yields_nothing_witness:
  "cc_ok cc_runs [[[0, 0, 0]], [[0, 0, 0]]]
   \<and> snd (label_connected_components cc_runs [[[0, 0, 0]], [[0, 0, 0]]]) = 0
   \<and> main_v7 (stub_kernel [[[0, 0, 0]], [[0, 0, 0]]] stub_stages)
        \<lparr>input_path = Some ''v.tif'', output_path = Some ''shape.obj'', reduction = 1 / 2\<rparr>
      = Inr \<lparr>console = [''Loading multi-page TIFF from v.tif...'',
                         ''Detected 0 connected components.''],
             plotted = [], saved = []\<rparr>"
proof -
  let ?a = "\<lparr>input_path = Some ''v.tif'', output_path = Some ''shape.obj'', reduction = 1 / 2\<rparr>"
  let ?v = "[[[0, 0, 0]], [[0, 0, 0]]] :: volume"
  let ?k = "stub_kernel ?v stub_stages"
  have i: "input_path ?a = Some ''v.tif''" and p: "''v.tif'' \<noteq> []" by simp_all
  have r: "read_multi_tiff_pillow ?k ''v.tif'' = Inr ?v"
    by (simp add: stub_kernel_def stub_surface_def)
  have ok: "cc_ok cc_runs ?v"
    by (simp add: cc_ok_def cc_contract_def cc_runs_def slice_uint8_def astype_uint8_def)
  then have ok': "cc_ok (connectedComponents ?k) ?v"
    by (simp add: stub_kernel_def stub_surface_def)
  have z: "\<forall>s \<in> set ?v. \<forall>r \<in> set s. \<forall>v \<in> set r. v = 0" by simp
  have e: "extract_surface ?k [] = Inr []" and c: "connectivity ?k [] = Inr []"
    by (simp_all add: stub_kernel_def stub_surface_def)
  have cc: "connectedComponents ?k = cc_runs"
    by (simp add: stub_kernel_def stub_surface_def)
  from background_volume_yields_nothing [OF i p r ok' z e c] ok show ?thesis
    by (simp add: cc)
qed

end
